theory Spec2Isabelle
  imports Main "HOL-Library.Word"
begin

section \<open>Bytes and checked reads\<close>

text \<open>
  The program of \<^verbatim>\<open>task2_simple.cpp\<close> works on \<^verbatim>\<open>std::vector<char>\<close>. A
  \<^verbatim>\<open>char\<close> is an 8-bit value; whether the platform reads it as signed or unsigned does
  not matter for the equality tests of the codec, and the one place where its numeric
  value is used (\<^verbatim>\<open>static_cast<unsigned char>\<close> in the decoder) reads it unsigned.
  Positions and counts are \<^verbatim>\<open>size_t\<close> values that never exceed the size of the vector
  they index, so they are natural numbers here.

  \<^verbatim>\<open>operator[]\<close> on a vector is undefined behaviour out of range. Each such read is
  the checked read \<open>at\<close>, and a function that performs one out of range returns
  \<open>None\<close>.
\<close>

type_synonym byte = "8 word"

definition at :: "'a list \<Rightarrow> nat \<Rightarrow> 'a option" where
  "at xs i = (if i < length xs then Some (xs ! i) else None)"

section \<open>The run-length codec\<close>

text \<open>
  The inner loop of \<^verbatim>\<open>RLECompress\<close> (line 27):
  \<^verbatim>\<open>while (i + count < input.size() && input[i + count] == current && count < 255) ++count;\<close>
  The conjunction is evaluated left to right, so \<^verbatim>\<open>input[i + count]\<close> is read only
  after the bound test has passed.
\<close>

function run_count :: "byte list \<Rightarrow> nat \<Rightarrow> byte \<Rightarrow> nat \<Rightarrow> nat option" where
  "run_count input i current count =
     (if i + count < length input then
        (case at input (i + count) of
           None \<Rightarrow> None
         | Some b \<Rightarrow>
             if b = current \<and> count < 255
             then run_count input i current (count + 1)
             else Some count)
      else Some count)"
  by pat_completeness auto
termination
  by (relation "measure (\<lambda>(input, i, current, count). length input - (i + count))") auto

declare run_count.simps [simp del]

text \<open>
  The outer loop of \<^verbatim>\<open>RLECompress\<close> (lines 24 to 33), from position \<open>i\<close> with the
  output vector built so far. \<^verbatim>\<open>static_cast<char>(count)\<close> keeps the low 8 bits of
  the count.
\<close>

function RLECompress_from :: "byte list \<Rightarrow> nat \<Rightarrow> byte list \<Rightarrow> byte list option" where
  "RLECompress_from input i output =
     (if i < length input then
        (case at input i of
           None \<Rightarrow> None
         | Some current \<Rightarrow>
             (case run_count input i current 1 of
                None \<Rightarrow> None
              | Some count \<Rightarrow>
                  RLECompress_from input (i + count) (output @ [current, of_nat count])))
      else Some output)"
  by pat_completeness auto
termination
proof (relation "measure (\<lambda>(input, i, output). length input - i)")
  show "wf (measure (\<lambda>(input, i, output). length input - i))" by simp
next
  fix input :: "byte list" and i :: nat and out :: "byte list" and current :: byte
    and count :: nat
  assume inb: "i < length input" and run: "run_count input i current 1 = Some count"
  have ge: "run_count xs j c n = Some k \<Longrightarrow> n \<le> k" for xs j c n k
  proof (induction xs j c n rule: run_count.induct)
    case (1 xs j c n)
    show ?case
    proof (cases "j + n < length xs \<and> xs ! (j + n) = c \<and> n < 255")
      case True
      with "1.prems" have "run_count xs j c (n + 1) = Some k"
        by (subst (asm) run_count.simps) (simp add: at_def)
      with "1.IH" True have "n + 1 \<le> k"
        by (simp add: at_def)
      then show ?thesis by simp
    next
      case False
      with "1.prems" show ?thesis
        by (subst (asm) run_count.simps) (auto simp: at_def split: if_splits)
    qed
  qed
  from ge [OF run] inb
  show "((input, i + count, out @ [current, of_nat count]), (input, i, out))
      \<in> measure (\<lambda>(input, i, output). length input - i)"
    by simp
qed

declare RLECompress_from.simps [simp del]

definition RLECompress :: "byte list \<Rightarrow> byte list option" where
  "RLECompress input = RLECompress_from input 0 []"

text \<open>
  \<^verbatim>\<open>RLEDecompress\<close> (lines 37 to 45): the loop
  \<^verbatim>\<open>for (size_t i = 0; i + 1 < input.size(); i += 2)\<close> reads \<^verbatim>\<open>input[i]\<close> and
  \<^verbatim>\<open>input[i + 1]\<close> and appends \<^verbatim>\<open>count\<close> copies of the first, the count being the
  second byte read as \<^verbatim>\<open>unsigned char\<close>.
\<close>

function RLEDecompress_from :: "byte list \<Rightarrow> nat \<Rightarrow> byte list \<Rightarrow> byte list option" where
  "RLEDecompress_from input i output =
     (if i + 1 < length input then
        (case at input i of
           None \<Rightarrow> None
         | Some ch \<Rightarrow>
             (case at input (i + 1) of
                None \<Rightarrow> None
              | Some cb \<Rightarrow>
                  RLEDecompress_from input (i + 2) (output @ replicate (unat cb) ch)))
      else Some output)"
  by pat_completeness auto
termination
  by (relation "measure (\<lambda>(input, i, output). length input - i)") auto

declare RLEDecompress_from.simps [simp del]

definition RLEDecompress :: "byte list \<Rightarrow> byte list option" where
  "RLEDecompress input = RLEDecompress_from input 0 []"

section \<open>Input streams\<close>

text \<open>
  A \<^verbatim>\<open>std::ifstream\<close> opened in binary mode: the bytes not yet read, and the two state
  bits the program depends on. \<^verbatim>\<open>read\<close> and \<^verbatim>\<open>peek\<close> are unformatted input
  functions: each first builds a sentry, which fails (and sets \<^verbatim>\<open>failbit\<close>) unless the
  stream is \<^verbatim>\<open>good()\<close>. \<^verbatim>\<open>read(s, n)\<close> stores the bytes it gets at \<^verbatim>\<open>s\<close> and sets
  \<^verbatim>\<open>eofbit | failbit\<close> when it gets fewer than \<open>n\<close>; the bytes it got are the value of
  \<^verbatim>\<open>gcount()\<close>. \<^verbatim>\<open>peek\<close> returns \<^verbatim>\<open>EOF\<close> (here \<open>None\<close>) when the sentry fails or
  no byte is left.
\<close>

record istream =
  unread :: "byte list"
  eofbit :: bool
  failbit :: bool

definition open_stream :: "byte list \<Rightarrow> istream" where
  "open_stream file = \<lparr>unread = file, eofbit = False, failbit = False\<rparr>"

definition good :: "istream \<Rightarrow> bool" where
  "good s = (\<not> eofbit s \<and> \<not> failbit s)"

definition stream_read :: "nat \<Rightarrow> istream \<Rightarrow> byte list \<times> istream" where
  "stream_read n s =
     (if good s then
        (let got = take n (unread s); short = (length got < n)
         in (got, s\<lparr>unread := drop n (unread s), eofbit := short, failbit := short\<rparr>))
      else ([], s\<lparr>failbit := True\<rparr>))"

definition stream_peek :: "istream \<Rightarrow> byte option \<times> istream" where
  "stream_peek s =
     (if good s then
        (case unread s of
           [] \<Rightarrow> (None, s\<lparr>eofbit := True\<rparr>)
         | b # _ \<Rightarrow> (Some b, s))
      else (None, s\<lparr>failbit := True\<rparr>))"

section \<open>The chunk source\<close>

text \<open>
  \<^verbatim>\<open>constexpr size_t CHUNK_SIZE = 1024 * 1024;\<close> and \<^verbatim>\<open>struct Chunk\<close>. A
  \<^verbatim>\<open>size_t\<close> is 64 bits wide (the frame format of the specification fixes 8 bytes).
\<close>

type_synonym size_t = "64 word"

definition CHUNK_SIZE :: nat where
  "CHUNK_SIZE = 1024 * 1024"

record Chunk =
  index :: size_t
  data :: "byte list"

text \<open>
  One pass through the reading loop of \<^verbatim>\<open>compressFile\<close> (lines 80 to 92):
  \<^verbatim>\<open>while (!in.eof()) { read CHUNK_SIZE bytes; if (bytesRead == 0) break; push {index++, buffer}; }\<close>
  The result is the chunk pushed on the queue with the stream and the counter after it,
  or \<open>None\<close> when the loop ends.
\<close>

definition next_chunk :: "istream \<Rightarrow> size_t \<Rightarrow> (Chunk \<times> istream \<times> size_t) option" where
  "next_chunk s idx =
     (if eofbit s then None
      else
        (let (buffer, s') = stream_read CHUNK_SIZE s;
             bytesRead = length buffer
         in if bytesRead = 0 then None
            else Some (\<lparr>index = idx, data = buffer\<rparr>, s', idx + 1)))"

text \<open>The chunks the loop pushes, in the order it pushes them.\<close>

function chunk_source :: "istream \<Rightarrow> size_t \<Rightarrow> Chunk list" where
  "chunk_source s idx =
     (case next_chunk s idx of
        None \<Rightarrow> []
      | Some (c, s', idx') \<Rightarrow> c # chunk_source s' idx')"
  by pat_completeness auto
termination
proof (relation "measure (\<lambda>(s, idx). length (unread s))")
  show "wf (measure (\<lambda>(s, idx). length (unread s)))" by simp
next
  fix s :: istream and idx idx' :: size_t and c :: Chunk and s' :: istream
    and x :: "Chunk \<times> istream \<times> size_t" and y :: "istream \<times> size_t"
  assume nc: "next_chunk s idx = Some x" and x: "(c, y) = x" and y: "(s', idx') = y"
  from nc x y have "next_chunk s idx = Some (c, s', idx')" by simp
  then have "length (unread s') < length (unread s)"
    by (auto simp: next_chunk_def stream_read_def CHUNK_SIZE_def Let_def
        split: if_splits prod.splits)
  then show "((s', idx'), (s, idx)) \<in> measure (\<lambda>(s, idx). length (unread s))"
    by simp
qed

declare chunk_source.simps [simp del]

section \<open>Frame records\<close>

text \<open>
  \<^verbatim>\<open>out.write(reinterpret_cast<char*>(&x), sizeof(size_t))\<close> writes the object
  representation of a \<^verbatim>\<open>size_t\<close>: 8 bytes, least significant first on the
  little-endian 64-bit targets the program is built for. \<open>size_t_of_bytes\<close> is the
  value of a \<^verbatim>\<open>size_t\<close> whose object representation is the given bytes.
\<close>

fun le_bytes :: "nat \<Rightarrow> nat \<Rightarrow> byte list" where
  "le_bytes 0 n = []"
| "le_bytes (Suc k) n = of_nat (n mod 256) # le_bytes k (n div 256)"

fun le_value :: "byte list \<Rightarrow> nat" where
  "le_value [] = 0"
| "le_value (b # bs) = unat b + 256 * le_value bs"

definition size_t_bytes :: "size_t \<Rightarrow> byte list" where
  "size_t_bytes w = le_bytes 8 (unat w)"

definition size_t_of_bytes :: "byte list \<Rightarrow> size_t" where
  "size_t_of_bytes bs = of_nat (le_value bs)"

text \<open>
  The three writes a worker makes for one chunk under \<^verbatim>\<open>outputMutex\<close> (lines 63 to
  66): the index, \<^verbatim>\<open>size_t size = compressed.size()\<close>, and the payload.
\<close>

definition frame_record :: "size_t \<Rightarrow> byte list \<Rightarrow> byte list" where
  "frame_record idx compressed =
     size_t_bytes idx @ size_t_bytes (of_nat (length compressed)) @ compressed"

section \<open>Compression with one worker\<close>

text \<open>
  \<^verbatim>\<open>compressFile\<close> with \<^verbatim>\<open>threadCount = 1\<close> runs two threads: the main thread, which
  reads chunks and pushes them on \<^verbatim>\<open>workQueue\<close>, and one \<^verbatim>\<open>compressWorker\<close>. They
  share the queue and the flag \<^verbatim>\<open>doneReading\<close>, both touched only under
  \<^verbatim>\<open>queueMutex\<close>, so each critical section is one atomic step; the input stream belongs
  to the main thread and the output stream to the worker. The state below holds the
  shared variables, the private state of each thread, and the bytes the worker has
  written to the output file, which is opened with \<^verbatim>\<open>std::ios::app\<close> and so starts
  with what the file already held.

  With more than one worker, every \<^verbatim>\<open>compressWorker\<close> has a \<^verbatim>\<open>std::ofstream\<close> of its own on
  the file; which bytes reach the file, and when, then depends on when each stream
  flushes its buffer. That is outside this model.
\<close>

datatype worker_pc = Waiting | Holding Chunk | Exited | Faulted

record pipeline =
  source :: istream
  next_index :: size_t
  reading :: bool
  workQueue :: "Chunk list"
  doneReading :: bool
  worker :: worker_pc
  outfile :: "byte list"

definition compressFile_init :: "byte list \<Rightarrow> byte list \<Rightarrow> pipeline" where
  "compressFile_init inputFile existing =
     \<lparr>source = open_stream inputFile, next_index = 0, reading = True, workQueue = [],
      doneReading = False, worker = Waiting, outfile = existing\<rparr>"

text \<open>
  A step of the main thread: one pass through the reading loop, pushing the chunk; when
  the loop ends, \<^verbatim>\<open>doneReading = true\<close> (lines 96 to 100), after which the thread only
  waits in \<^verbatim>\<open>join\<close>.
\<close>

definition main_step :: "pipeline \<Rightarrow> pipeline" where
  "main_step p =
     (if reading p then
        (case next_chunk (source p) (next_index p) of
           Some (c, s', idx') \<Rightarrow>
             p\<lparr>source := s', next_index := idx', workQueue := workQueue p @ [c]\<rparr>
         | None \<Rightarrow> p\<lparr>reading := False, doneReading := True\<rparr>)
      else p)"

text \<open>
  A step of \<^verbatim>\<open>compressWorker\<close> (lines 49 to 68). Waiting, it takes the front of the
  queue; with the queue empty it leaves the loop once \<^verbatim>\<open>doneReading\<close> is set and stays
  blocked in \<^verbatim>\<open>cv.wait\<close> otherwise. Holding a chunk, it encodes the data and writes the
  frame record.
\<close>

definition worker_step :: "pipeline \<Rightarrow> pipeline" where
  "worker_step p =
     (case worker p of
        Waiting \<Rightarrow>
          (case workQueue p of
             c # q \<Rightarrow> p\<lparr>workQueue := q, worker := Holding c\<rparr>
           | [] \<Rightarrow> if doneReading p then p\<lparr>worker := Exited\<rparr> else p)
      | Holding c \<Rightarrow>
          (case RLECompress (data c) of
             None \<Rightarrow> p\<lparr>worker := Faulted\<rparr>
           | Some compressed \<Rightarrow>
               p\<lparr>outfile := outfile p @ frame_record (index c) compressed,
                 worker := Waiting\<rparr>)
      | Exited \<Rightarrow> p
      | Faulted \<Rightarrow> p)"

datatype thread = MainThread | WorkerThread

fun step :: "pipeline \<Rightarrow> thread \<Rightarrow> pipeline" where
  "step p MainThread = main_step p"
| "step p WorkerThread = worker_step p"

text \<open>
  A schedule names the thread that takes each step. \<^verbatim>\<open>compressFile\<close> returns when the
  reading loop has ended and \<^verbatim>\<open>join\<close> has seen the worker leave its loop.
\<close>

definition run :: "thread list \<Rightarrow> pipeline \<Rightarrow> pipeline" where
  "run schedule p = foldl step p schedule"

definition finished :: "pipeline \<Rightarrow> bool" where
  "finished p = (\<not> reading p \<and> worker p = Exited)"

section \<open>Decompression\<close>

text \<open>
  \<^verbatim>\<open>decompressFile\<close> (lines 109 to 119). \<^verbatim>\<open>index\<close> and \<^verbatim>\<open>size\<close> start as 0 and
  \<^verbatim>\<open>read\<close> overwrites their first bytes with what it gets. \<^verbatim>\<open>std::vector<char>
  compressed(size)\<close> is \<open>size\<close> zero bytes; it throws \<^verbatim>\<open>std::length_error\<close> when
  \<open>size\<close> exceeds \<^verbatim>\<open>max_size()\<close> (\<open>2\<^sup>6\<^sup>3 - 1\<close> for \<^verbatim>\<open>char\<close>) and \<^verbatim>\<open>std::bad_alloc\<close>
  when the allocator cannot supply the bytes. Every other allocation of the program is
  bounded by data it already holds; this one takes its size from the file, so the model
  carries the largest block the allocator supplies as \<open>max_alloc\<close>. Nothing catches
  either exception: the process ends.
\<close>

datatype error = LengthError | BadAlloc | OutOfBounds

definition vector_max_size :: nat where
  "vector_max_size = 2 ^ 63 - 1"

definition size_t_load :: "byte list \<Rightarrow> size_t" where
  "size_t_load got = size_t_of_bytes (got @ replicate (8 - length got) 0)"

function decompress_loop :: "nat \<Rightarrow> istream \<Rightarrow> byte list \<Rightarrow> error + byte list" where
  "decompress_loop max_alloc s out =
     (case stream_peek s of
        (None, _) \<Rightarrow> Inr out
      | (Some _, s0) \<Rightarrow>
          (let (ib, s1) = stream_read 8 s0;
               index = size_t_load ib;
               (sb, s2) = stream_read 8 s1;
               size = unat (size_t_load sb)
           in if vector_max_size < size then Inl LengthError
              else if max_alloc < size then Inl BadAlloc
              else
                (let (pb, s3) = stream_read size s2;
                     compressed = pb @ replicate (size - length pb) 0
                 in case RLEDecompress compressed of
                      None \<Rightarrow> Inl OutOfBounds
                    | Some decompressed \<Rightarrow> decompress_loop max_alloc s3 (out @ decompressed))))"
  by pat_completeness auto
termination
proof (relation "measure (\<lambda>(max_alloc, s, out). length (unread s))")
  show "wf (measure (\<lambda>(max_alloc, s, out). length (unread s)))" by simp
next
  fix max_alloc size :: nat and s s0 s1 s2 s3 :: istream
    and out ib sb pb compressed decompressed :: "byte list"
    and pk :: "byte option" and b :: byte and index :: size_t
    and r1 r2 r3 :: "byte list \<times> istream"
  assume "(pk, s0) = stream_peek s" and "pk = Some b"
    and "r1 = stream_read 8 s0" and "(ib, s1) = r1" and "index = size_t_load ib"
    and "r2 = stream_read 8 s1" and "(sb, s2) = r2" and "size = unat (size_t_load sb)"
    and "\<not> vector_max_size < size" and "\<not> max_alloc < size"
    and "r3 = stream_read size s2" and "(pb, s3) = r3"
    and "compressed = pb @ replicate (size - length pb) 0"
    and "RLEDecompress compressed = Some decompressed"
  then have pk: "stream_peek s = (Some b, s0)"
    and r1: "stream_read 8 s0 = (ib, s1)"
    and r2: "stream_read 8 s1 = (sb, s2)"
    and r3: "stream_read size s2 = (pb, s3)"
    by simp_all
  have le: "length (unread t') \<le> length (unread t)" if "stream_read n t = (got, t')"
    for n t got t'
    using that by (auto simp: stream_read_def Let_def split: if_splits)
  from pk have "s0 = s" and "good s" and "unread s \<noteq> []"
    by (auto simp: stream_peek_def split: if_splits list.splits)
  with r1 have "length (unread s1) < length (unread s)"
    by (auto simp: stream_read_def Let_def)
  with le [OF r2] le [OF r3] have "length (unread s3) < length (unread s)"
    by simp
  then show "((max_alloc, s3, out @ decompressed), (max_alloc, s, out))
      \<in> measure (\<lambda>(max_alloc, s, out). length (unread s))"
    by simp
qed

declare decompress_loop.simps [simp del]

definition decompressFile :: "nat \<Rightarrow> byte list \<Rightarrow> error + byte list" where
  "decompressFile max_alloc inputFile = decompress_loop max_alloc (open_stream inputFile) []"

section \<open>The codec on lists\<close>

text \<open>
  The two loops walk their input by position. The functions of this section say the same
  on the list itself, and the lemmas after them show that the loops compute them; the
  properties of the codec are then proved by induction on lists.

  \<open>decode_pairs\<close> takes a (value, count) pair off the front while there is one.
  \<open>more_run x xs\<close> is the number of bytes at the front of \<open>xs\<close>, at most 254, that
  repeat \<open>x\<close>; \<open>encode_runs\<close> emits the first byte with one more than that and goes on
  behind them.
\<close>

fun decode_pairs :: "byte list \<Rightarrow> byte list" where
  "decode_pairs (v # c # rest) = replicate (unat c) v @ decode_pairs rest"
| "decode_pairs _ = []"

definition more_run :: "byte \<Rightarrow> byte list \<Rightarrow> nat" where
  "more_run x xs = length (takeWhile (\<lambda>y. y = x) (take 254 xs))"

function encode_runs :: "byte list \<Rightarrow> byte list" where
  "encode_runs [] = []"
| "encode_runs (x # xs) =
     x # of_nat (Suc (more_run x xs)) # encode_runs (drop (more_run x xs) xs)"
  by pat_completeness auto
termination
  by (relation "measure length") auto

text \<open>
  The specification's description of one run: a run of \<open>n\<close> copies of \<open>x\<close> is cut into
  slices of 255, each written as the pair \<open>(x, 255)\<close>, and a last pair for what is
  left.
\<close>

function run_pairs :: "byte \<Rightarrow> nat \<Rightarrow> byte list" where
  "run_pairs x n =
     (if n = 0 then []
      else if n \<le> 255 then [x, of_nat n]
      else [x, 255] @ run_pairs x (n - 255))"
  by pat_completeness auto
termination
  by (relation "measure (\<lambda>(x, n). n)") auto

declare run_pairs.simps [simp del]


section \<open>The chunk source on lists\<close>

text \<open>
  The chunks \<^verbatim>\<open>compressFile\<close> pushes for an input file: the stream is opened on the
  file and the counter starts at 0 (lines 73 and 75).
\<close>

definition compressFile_chunks :: "byte list \<Rightarrow> Chunk list" where
  "compressFile_chunks inputFile = chunk_source (open_stream inputFile) 0"

text \<open>
  The closed form the reading loop is compared with: the number of windows of
  \<open>CHUNK_SIZE\<close> bytes that cover \<open>n\<close> bytes, and the \<open>i\<close>-th window of a file with the
  index the loop gives it when it starts counting at \<open>idx\<close>.
\<close>

definition chunk_count :: "nat \<Rightarrow> nat" where
  "chunk_count n = (n + CHUNK_SIZE - 1) div CHUNK_SIZE"

definition window :: "byte list \<Rightarrow> size_t \<Rightarrow> nat \<Rightarrow> Chunk" where
  "window file idx i =
     \<lparr>index = idx + of_nat i, data = take CHUNK_SIZE (drop (i * CHUNK_SIZE) file)\<rparr>"

section \<open>What a run with one worker leaves to be written\<close>

text \<open>
  Quantities of a pipeline state used to follow a run: the frame records of a list of
  chunks in order; the chunks the main thread has still to read; the chunk the worker
  holds; the output file as it will be once everything pending is written; the relations
  between the flags that every reachable state satisfies; and a bound on the steps that
  remain.
\<close>

definition frames :: "Chunk list \<Rightarrow> byte list" where
  "frames cs = concat (map (\<lambda>c. frame_record (index c) (encode_runs (data c))) cs)"

definition unread_chunks :: "pipeline \<Rightarrow> Chunk list" where
  "unread_chunks p = (if reading p then chunk_source (source p) (next_index p) else [])"

definition held :: "pipeline \<Rightarrow> Chunk list" where
  "held p = (case worker p of Holding c \<Rightarrow> [c] | _ \<Rightarrow> [])"

definition expected_output :: "pipeline \<Rightarrow> byte list" where
  "expected_output p = outfile p @ frames (held p @ workQueue p @ unread_chunks p)"

definition consistent :: "pipeline \<Rightarrow> bool" where
  "consistent p =
     (worker p \<noteq> Faulted \<and> doneReading p = (\<not> reading p) \<and>
      (worker p = Exited \<longrightarrow> workQueue p = [] \<and> \<not> reading p))"

definition work_left :: "pipeline \<Rightarrow> nat" where
  "work_left p =
     3 * (if reading p then Suc (length (unread_chunks p)) else 0) +
     2 * length (workQueue p) +
     (case worker p of Holding c \<Rightarrow> 2 | Waiting \<Rightarrow> 1 | _ \<Rightarrow> 0)"
section \<open>The loops compute the list functions\<close>

lemma more_run_le_254: "more_run x xs \<le> 254"
proof -
  have "more_run x xs \<le> length (take 254 xs)"
    unfolding more_run_def by (rule length_takeWhile_le)
  then show ?thesis by simp
qed

lemma more_run_le_length: "more_run x xs \<le> length xs"
proof -
  have "more_run x xs \<le> length (take 254 xs)"
    unfolding more_run_def by (rule length_takeWhile_le)
  then show ?thesis by simp
qed

lemma drop_two_reads:
  "i + 1 < length xs \<Longrightarrow> drop i xs = xs ! i # xs ! (i + 1) # drop (i + 2) xs"
  by (metis Cons_nth_drop_Suc Suc_eq_plus1 Suc_lessD add_2_eq_Suc')

lemma RLEDecompress_from_eq:
  "RLEDecompress_from input i out = Some (out @ decode_pairs (drop i input))"
proof (induction input i out rule: RLEDecompress_from.induct)
  case (1 input i out)
  show ?case
  proof (cases "i + 1 < length input")
    case True
    then have "RLEDecompress_from input i out =
        RLEDecompress_from input (i + 2) (out @ replicate (unat (input ! (i + 1))) (input ! i))"
      by (subst RLEDecompress_from.simps) (simp add: at_def)
    also have "\<dots> = Some ((out @ replicate (unat (input ! (i + 1))) (input ! i)) @
        decode_pairs (drop (i + 2) input))"
      using True by (intro "1.IH") (simp_all add: at_def)
    also have "\<dots> = Some (out @ decode_pairs (drop i input))"
      by (simp add: drop_two_reads [OF True])
    finally show ?thesis .
  next
    case False
    then have "length (drop i input) \<le> 1" by simp
    then have "decode_pairs (drop i input) = []"
      by (cases "drop i input" rule: decode_pairs.cases) simp_all
    with False show ?thesis by (subst RLEDecompress_from.simps) simp
  qed
qed

lemma RLEDecompress_eq: "RLEDecompress input = Some (decode_pairs input)"
  by (simp add: RLEDecompress_def RLEDecompress_from_eq)

lemma run_count_eq:
  "i + count \<le> length input \<Longrightarrow> count \<le> 255 \<Longrightarrow>
   run_count input i current count =
     Some (count + length (takeWhile (\<lambda>y. y = current)
       (take (255 - count) (drop (i + count) input))))"
proof (induction input i current count rule: run_count.induct)
  case (1 input i current count)
  let ?rest = "drop (i + count) input"
  show ?case
  proof (cases "i + count < length input")
    case False
    with "1.prems" show ?thesis by (subst run_count.simps) simp
  next
    case inb: True
    then have rest: "?rest = input ! (i + count) # drop (i + (count + 1)) input"
      by (simp add: Cons_nth_drop_Suc)
    show ?thesis
    proof (cases "input ! (i + count) = current \<and> count < 255")
      case True
      then have t: "take (255 - count) ?rest =
          current # take (255 - (count + 1)) (drop (i + (count + 1)) input)"
        by (simp add: rest take_Cons')
      have "run_count input i current count = run_count input i current (count + 1)"
        using inb True by (subst run_count.simps) (simp add: at_def)
      also have "\<dots> = Some (count + 1 + length (takeWhile (\<lambda>y. y = current)
          (take (255 - (count + 1)) (drop (i + (count + 1)) input))))"
        using inb True by (intro "1.IH") (simp_all add: at_def)
      finally show ?thesis by (simp add: t)
    next
      case False
      then have "takeWhile (\<lambda>y. y = current) (take (255 - count) ?rest) = []"
        by (auto simp: rest take_Cons')
      moreover have "run_count input i current count = Some count"
        using inb False by (subst run_count.simps) (auto simp: at_def)
      ultimately show ?thesis by simp
    qed
  qed
qed

lemma run_count_first:
  assumes "i < length input"
  shows "run_count input i (input ! i) (Suc 0) =
    Some (Suc (more_run (input ! i) (drop (Suc i) input)))"
  using assms run_count_eq [of i 1 input "input ! i"] by (simp add: more_run_def)

lemma RLECompress_from_eq:
  "i \<le> length input \<Longrightarrow>
   RLECompress_from input i out = Some (out @ encode_runs (drop i input))"
proof (induction input i out rule: RLECompress_from.induct)
  case (1 input i out)
  show ?case
  proof (cases "i < length input")
    case False
    with "1.prems" show ?thesis by (subst RLECompress_from.simps) simp
  next
    case True
    let ?x = "input ! i"
    let ?k = "more_run ?x (drop (Suc i) input)"
    have k: "i + Suc ?k \<le> length input"
      using more_run_le_length [of ?x "drop (Suc i) input"] True by simp
    have "RLECompress_from input i out =
        RLECompress_from input (i + Suc ?k) (out @ [?x, of_nat (Suc ?k)])"
      using True by (subst RLECompress_from.simps) (simp add: at_def run_count_first)
    also have "\<dots> = Some ((out @ [?x, of_nat (Suc ?k)]) @ encode_runs (drop (i + Suc ?k) input))"
      using True k by (intro "1.IH") (simp_all add: at_def run_count_first)
    also have "drop (i + Suc ?k) input = drop ?k (drop (Suc i) input)"
      by (simp add: add.commute)
    finally show ?thesis
      using True by (simp add: Cons_nth_drop_Suc [symmetric])
  qed
qed

lemma RLECompress_eq: "RLECompress input = Some (encode_runs input)"
  by (simp add: RLECompress_def RLECompress_from_eq)

section \<open>Properties of the list functions\<close>

lemma more_run_prefix: "take (more_run x xs) xs = replicate (more_run x xs) x"
proof -
  let ?tw = "takeWhile (\<lambda>y. y = x) (take 254 xs)"
  have "?tw = take (length ?tw) (take 254 xs)"
    by (rule takeWhile_eq_take)
  also have "\<dots> = take (more_run x xs) xs"
    using more_run_le_254 [of x xs] by (simp add: more_run_def min_def)
  finally have a: "take (more_run x xs) xs = ?tw" by simp
  have "?tw = replicate (length ?tw) x"
    by (rule replicate_length_same [symmetric]) (auto dest: set_takeWhileD)
  with a show ?thesis by (simp add: more_run_def)
qed

lemma unat_count_byte: "n \<le> 254 \<Longrightarrow> unat (of_nat (Suc n) :: byte) = Suc n"
  by (simp add: unat_of_nat del: of_nat_Suc)

lemma decode_encode_runs: "decode_pairs (encode_runs xs) = xs"
proof (induction xs rule: encode_runs.induct)
  case 1
  show ?case by simp
next
  case (2 x xs)
  let ?k = "more_run x xs"
  have "decode_pairs (encode_runs (x # xs)) = replicate (Suc ?k) x @ drop ?k xs"
    using "2.IH" by (simp add: unat_count_byte [OF more_run_le_254] del: of_nat_Suc replicate_Suc)
  also have "\<dots> = x # take ?k xs @ drop ?k xs"
    by (simp add: more_run_prefix)
  finally show ?case by simp
qed

lemma decode_pairs_butlast:
  "odd (length xs) \<Longrightarrow> decode_pairs (butlast xs) = decode_pairs xs"
proof (induction xs rule: decode_pairs.induct)
  case (1 v c rest)
  then have "rest \<noteq> []" by auto
  with 1 show ?case by simp
qed simp_all

lemma length_encode_runs:
  "even (length (encode_runs xs)) \<and> length (encode_runs xs) \<le> 2 * length xs"
proof (induction xs rule: encode_runs.induct)
  case 1
  show ?case by simp
next
  case (2 x xs)
  let ?r = "encode_runs (drop (more_run x xs) xs)"
  from 2 have "even (length ?r)" and "length ?r \<le> 2 * (length xs - more_run x xs)"
    by simp_all
  then have "even (length ?r)" and "length ?r \<le> 2 * length xs"
    by simp_all
  then show ?case by (simp del: of_nat_Suc)
qed

lemma encode_runs_counts:
  "Suc (2 * k) < length (encode_runs xs) \<Longrightarrow> Suc 0 \<le> unat (encode_runs xs ! Suc (2 * k))"
proof (induction xs arbitrary: k rule: encode_runs.induct)
  case 1
  then show ?case by simp
next
  case (2 x xs)
  show ?case
  proof (cases k)
    case 0
    then show ?thesis
      by (simp add: unat_count_byte [OF more_run_le_254] del: of_nat_Suc)
  next
    case (Suc j)
    with "2.prems" have "Suc (2 * j) < length (encode_runs (drop (more_run x xs) xs))"
      by (simp del: of_nat_Suc)
    from "2.IH" [OF this] Suc show ?thesis by (simp del: of_nat_Suc)
  qed
qed

lemma takeWhile_take_stop:
  "zs = [] \<or> hd zs \<noteq> x \<Longrightarrow> takeWhile (\<lambda>y. y = x) (take m zs) = []"
  by (cases zs; cases m) auto

lemma more_run_append:
  assumes "zs = [] \<or> hd zs \<noteq> x \<or> more_run x xs < length xs"
  shows "more_run x (xs @ zs) = more_run x xs"
proof (cases "\<forall>y \<in> set (take 254 xs). y = x")
  case False
  then obtain y where "y \<in> set (take 254 xs)" and "\<not> y = x" by blast
  then have "takeWhile (\<lambda>y. y = x) (take 254 xs @ take (254 - length xs) zs) =
      takeWhile (\<lambda>y. y = x) (take 254 xs)"
    by (rule takeWhile_append1)
  then show ?thesis
    by (simp add: more_run_def)
next
  case True
  then have all: "takeWhile (\<lambda>y. y = x) (take 254 xs) = take 254 xs"
    by simp
  have k: "more_run x xs = min (length xs) 254"
    unfolding more_run_def all by simp
  have "takeWhile (\<lambda>y. y = x) (take (254 - length xs) zs) = []"
  proof (cases "zs = [] \<or> hd zs \<noteq> x")
    case True
    then show ?thesis by (rule takeWhile_take_stop)
  next
    case False
    with assms k have "254 \<le> length xs" by simp
    then show ?thesis by simp
  qed
  with True show ?thesis
    unfolding more_run_def take_append by (simp del: takeWhile_eq_all_conv) (simp add: all)
qed

lemma more_run_all:
  assumes "more_run x xs = length xs"
  shows "xs = replicate (length xs) x"
  using more_run_prefix [of x xs] assms by simp

lemma encode_runs_append:
  assumes "pre = [] \<or> zs = [] \<or> last pre \<noteq> hd zs"
  shows "encode_runs (pre @ zs) = encode_runs pre @ encode_runs zs"
  using assms
proof (induction pre rule: encode_runs.induct)
  case 1
  show ?case by simp
next
  case (2 x xs)
  let ?k = "more_run x xs"
  show ?case
  proof (cases "zs = []")
    case True
    then show ?thesis by simp
  next
    case False
    with "2.prems" have ne: "last (x # xs) \<noteq> hd zs" by simp
    have stop: "hd zs \<noteq> x \<or> ?k < length xs"
    proof (cases "?k < length xs")
      case True
      then show ?thesis by simp
    next
      case False
      with more_run_le_length [of x xs] have "?k = length xs" by simp
      then have "xs = replicate (length xs) x" by (rule more_run_all)
      then have "set xs \<subseteq> {x}"
        by (metis set_replicate_conv_if empty_subsetI subset_refl)
      then have "xs \<noteq> [] \<Longrightarrow> last xs = x"
        using last_in_set [of xs] by blast
      then have "last (x # xs) = x"
        by simp
      with ne show ?thesis by auto
    qed
    then have k: "more_run x (xs @ zs) = ?k"
      by (intro more_run_append) auto
    have rest: "drop ?k xs = [] \<or> zs = [] \<or> last (drop ?k xs) \<noteq> hd zs"
    proof (cases "?k < length xs")
      case True
      then have "last (drop ?k xs) = last xs" by (rule last_drop)
      moreover from True have "xs \<noteq> []" by auto
      ultimately show ?thesis using ne by simp
    next
      case False
      then show ?thesis by simp
    qed
    have "encode_runs ((x # xs) @ zs) =
        x # of_nat (Suc ?k) # encode_runs (drop ?k xs @ zs)"
      using more_run_le_length [of x xs] by (simp add: k del: of_nat_Suc)
    also have "encode_runs (drop ?k xs @ zs) = encode_runs (drop ?k xs) @ encode_runs zs"
      by (rule "2.IH" [OF rest])
    finally show ?thesis by (simp del: of_nat_Suc)
  qed
qed

lemma more_run_replicate:
  assumes "ys = [] \<or> hd ys \<noteq> x"
  shows "more_run x (replicate m x @ ys) = min m 254"
proof -
  have "more_run x (replicate m x @ ys) = more_run x (replicate m x)"
    using assms by (intro more_run_append) auto
  also have "\<dots> = length (take 254 (replicate m x))"
    unfolding more_run_def
    by (rule arg_cong [where f = length], subst takeWhile_eq_all_conv) auto
  also have "\<dots> = min m 254"
    by simp
  finally show ?thesis .
qed

lemma encode_runs_replicate:
  assumes "ys = [] \<or> hd ys \<noteq> x"
  shows "encode_runs (replicate n x @ ys) = run_pairs x n @ encode_runs ys"
proof (induction n rule: less_induct)
  case (less n)
  show ?case
  proof (cases "n = 0")
    case True
    then show ?thesis by (subst run_pairs.simps) simp
  next
    case False
    then obtain m where n: "n = Suc m" by (cases n) auto
    have enc: "encode_runs (replicate n x @ ys) =
        x # of_nat (Suc (min m 254)) # encode_runs (drop (min m 254) (replicate m x @ ys))"
      by (simp add: n more_run_replicate [OF assms] del: of_nat_Suc)
    show ?thesis
    proof (cases "n \<le> 255")
      case True
      then have "min m 254 = m" using n by simp
      moreover have "run_pairs x n = [x, of_nat n]"
        using True False by (subst run_pairs.simps) simp
      ultimately show ?thesis
        using enc by (simp add: n del: of_nat_Suc)
    next
      case False
      define r where "r = n - 255"
      from False n have m: "m = 254 + r" and lt: "r < n" and big: "\<not> n \<le> 255" and nz: "n \<noteq> 0"
        by (simp_all add: r_def)
      have "min m 254 = 254"
        by (simp add: m)
      moreover have "drop 254 (replicate m x @ ys) = replicate r x @ ys"
        by (simp add: m replicate_add)
      ultimately have "encode_runs (replicate n x @ ys) =
          x # 255 # encode_runs (replicate r x @ ys)"
        using enc by simp
      also have "\<dots> = x # 255 # run_pairs x r @ encode_runs ys"
        by (simp add: less.IH [OF lt])
      finally have left: "encode_runs (replicate n x @ ys) =
          x # 255 # run_pairs x r @ encode_runs ys" .
      have "run_pairs x n = [x, 255] @ run_pairs x (n - 255)"
        using big nz by (subst run_pairs.simps) simp
      then have "run_pairs x n = x # 255 # run_pairs x r"
        by (simp add: r_def)
      with left show ?thesis by simp
    qed
  qed
qed

lemma run_pairs_300: "run_pairs X 300 = [X, 255, X, 45]"
  by code_simp

section \<open>Frame records and the object representation of sizes\<close>

lemma length_le_bytes: "length (le_bytes k n) = k"
  by (induction k arbitrary: n) simp_all

lemma unat_byte_mod: "unat (of_nat (n mod 256) :: byte) = n mod 256"
  by (simp add: unat_of_nat)

lemma le_value_le_bytes: "le_value (le_bytes k n) = n mod 256 ^ k"
proof (induction k arbitrary: n)
  case 0
  show ?case by simp
next
  case (Suc k)
  have "le_value (le_bytes (Suc k) n) = n mod 256 + 256 * ((n div 256) mod 256 ^ k)"
    by (simp add: Suc unat_byte_mod)
  also have "\<dots> = n mod (256 * 256 ^ k)"
    by (simp add: mod_mult2_eq)
  finally show ?case by simp
qed

lemma length_size_t_bytes: "length (size_t_bytes w) = 8"
  by (simp add: size_t_bytes_def length_le_bytes)

lemma size_t_bytes_inverse: "size_t_of_bytes (size_t_bytes w) = w"
proof -
  have "unat w < 2 ^ 64"
    using unsigned_less [of w, where 'a = nat] by simp
  then have "unat w mod 256 ^ 8 = unat w"
    by simp
  then show ?thesis
    by (simp add: size_t_of_bytes_def size_t_bytes_def le_value_le_bytes)
qed

lemma size_t_load_full: "size_t_load (size_t_bytes w) = w"
  by (simp add: size_t_load_def length_size_t_bytes size_t_bytes_inverse)

lemma unat_size_t_of_nat: "n < 2 ^ 64 \<Longrightarrow> unat (of_nat n :: size_t) = n"
  by (simp add: unat_of_nat)

lemma length_RLECompress:
  "RLECompress xs = Some (encode_runs xs) \<and> length (encode_runs xs) \<le> 2 * length xs"
  using length_encode_runs [of xs] by (simp add: RLECompress_eq)

section \<open>The reading loop produces the windows of the file\<close>

lemma CHUNK_SIZE_pos: "0 < CHUNK_SIZE"
  by (simp add: CHUNK_SIZE_def)

lemma next_chunk_empty: "unread s = [] \<Longrightarrow> next_chunk s idx = None"
  by (simp add: next_chunk_def stream_read_def Let_def)

lemma next_chunk_good:
  assumes "good s" and "unread s \<noteq> []"
  shows "next_chunk s idx =
    Some (\<lparr>index = idx, data = take CHUNK_SIZE (unread s)\<rparr>,
          s\<lparr>unread := drop CHUNK_SIZE (unread s),
            eofbit := length (unread s) < CHUNK_SIZE,
            failbit := length (unread s) < CHUNK_SIZE\<rparr>,
          idx + 1)"
  using assms CHUNK_SIZE_pos
  by (auto simp: next_chunk_def stream_read_def Let_def good_def min_def)

lemma chunk_count_0: "chunk_count 0 = 0"
  using CHUNK_SIZE_pos by (simp add: chunk_count_def)

lemma chunk_count_small: "0 < n \<Longrightarrow> n \<le> CHUNK_SIZE \<Longrightarrow> chunk_count n = 1"
  unfolding chunk_count_def by (rule div_nat_eqI) simp_all

lemma chunk_count_step:
  assumes "CHUNK_SIZE \<le> n"
  shows "chunk_count n = Suc (chunk_count (n - CHUNK_SIZE))"
proof -
  from assms CHUNK_SIZE_pos have a: "n + CHUNK_SIZE - 1 = (n - 1) + CHUNK_SIZE"
    and b: "n - CHUNK_SIZE + CHUNK_SIZE - 1 = n - 1"
    by simp_all
  have "(n - 1 + CHUNK_SIZE) div CHUNK_SIZE = Suc ((n - 1) div CHUNK_SIZE)"
    using CHUNK_SIZE_pos div_add_self2 [of CHUNK_SIZE "n - 1"] by simp
  then show ?thesis
    unfolding chunk_count_def a b .
qed

lemma chunk_source_windows:
  "good s \<Longrightarrow>
   chunk_source s idx = map (window (unread s) idx) [0..<chunk_count (length (unread s))]"
proof (induction s idx rule: chunk_source.induct)
  case (1 s idx)
  let ?u = "unread s"
  show ?case
  proof (cases "?u = []")
    case True
    then show ?thesis
      by (subst chunk_source.simps) (simp add: next_chunk_empty chunk_count_0)
  next
    case False
    let ?s' = "s\<lparr>unread := drop CHUNK_SIZE ?u, eofbit := length ?u < CHUNK_SIZE,
        failbit := length ?u < CHUNK_SIZE\<rparr>"
    let ?c = "\<lparr>index = idx, data = take CHUNK_SIZE ?u\<rparr>"
    have nc: "next_chunk s idx = Some (?c, ?s', idx + 1)"
      using "1.prems" False by (rule next_chunk_good)
    have unfold: "chunk_source s idx = ?c # chunk_source ?s' (idx + 1)"
      by (subst chunk_source.simps) (simp add: nc)
    have w0: "window ?u idx 0 = ?c"
      by (simp add: window_def)
    show ?thesis
    proof (cases "length ?u < CHUNK_SIZE")
      case True
      then have "chunk_source ?s' (idx + 1) = []"
        by (subst chunk_source.simps) (simp add: next_chunk_def)
      moreover from True False have "chunk_count (length ?u) = 1"
        by (intro chunk_count_small) simp_all
      ultimately show ?thesis
        by (simp add: unfold w0)
    next
      case big: False
      then have g: "good ?s'"
        using "1.prems" by (simp add: good_def)
      have "chunk_source ?s' (idx + 1) =
          map (window (unread ?s') (idx + 1)) [0..<chunk_count (length (unread ?s'))]"
        using nc g by (intro "1.IH") simp_all
      also have "\<dots> = map (\<lambda>i. window ?u idx (Suc i)) [0..<chunk_count (length ?u - CHUNK_SIZE)]"
        by (simp add: window_def add.commute add.left_commute)
      finally have rest: "chunk_source ?s' (idx + 1) =
          map (\<lambda>i. window ?u idx (Suc i)) [0..<chunk_count (length ?u - CHUNK_SIZE)]" .
      from big have cnt: "chunk_count (length ?u) = Suc (chunk_count (length ?u - CHUNK_SIZE))"
        by (intro chunk_count_step) simp
      have "map (window ?u idx) [0..<Suc (chunk_count (length ?u - CHUNK_SIZE))] =
          window ?u idx 0 # map (\<lambda>i. window ?u idx (Suc i)) [0..<chunk_count (length ?u - CHUNK_SIZE)]"
        by (simp add: upt_conv_Cons map_Suc_upt [symmetric] del: upt_Suc)
      with unfold rest cnt w0 show ?thesis by simp
    qed
  qed
qed

lemma compressFile_chunks_windows:
  "compressFile_chunks F = map (window F 0) [0..<chunk_count (length F)]"
  by (simp add: compressFile_chunks_def chunk_source_windows open_stream_def good_def)

lemma window_start:
  assumes "i < chunk_count n"
  shows "i * CHUNK_SIZE < n"
proof -
  from assms have "Suc i \<le> (n + CHUNK_SIZE - 1) div CHUNK_SIZE"
    by (simp add: chunk_count_def)
  then have "Suc i * CHUNK_SIZE \<le> (n + CHUNK_SIZE - 1) div CHUNK_SIZE * CHUNK_SIZE"
    by (rule mult_le_mono1)
  also have "\<dots> \<le> n + CHUNK_SIZE - 1"
    by simp
  finally have "i * CHUNK_SIZE + CHUNK_SIZE \<le> n + CHUNK_SIZE - 1"
    by simp
  with CHUNK_SIZE_pos show ?thesis
    by linarith
qed

lemma windows_cover: "n \<le> chunk_count n * CHUNK_SIZE"
proof -
  have "n + CHUNK_SIZE - 1 < CHUNK_SIZE + (n + CHUNK_SIZE - 1) div CHUNK_SIZE * CHUNK_SIZE"
    using CHUNK_SIZE_pos by (rule dividend_less_div_times)
  with CHUNK_SIZE_pos show ?thesis
    unfolding chunk_count_def by linarith
qed

lemma chunk_count_le: "chunk_count n \<le> n"
proof (cases "chunk_count n")
  case 0
  then show ?thesis by simp
next
  case (Suc k)
  then have "k * CHUNK_SIZE < n"
    by (intro window_start) simp
  moreover have "k * 1 \<le> k * CHUNK_SIZE"
    using CHUNK_SIZE_pos by (intro mult_le_mono2) simp
  ultimately have "k < n" by linarith
  then show ?thesis using Suc by simp
qed

lemma concat_windows:
  "concat (map (\<lambda>i. data (window F idx i)) [0..<k]) = take (k * CHUNK_SIZE) F"
proof (induction k)
  case 0
  show ?case by simp
next
  case (Suc k)
  have "take (k * CHUNK_SIZE + CHUNK_SIZE) F =
      take (k * CHUNK_SIZE) F @ take CHUNK_SIZE (drop (k * CHUNK_SIZE) F)"
    by (rule take_add)
  with Suc show ?case
    by (simp add: window_def add.commute)
qed

lemma concat_compressFile_chunks: "concat (map data (compressFile_chunks F)) = F"
proof -
  have "concat (map data (compressFile_chunks F)) =
      concat (map (\<lambda>i. data (window F 0 i)) [0..<chunk_count (length F)])"
    by (simp add: compressFile_chunks_windows comp_def)
  also have "\<dots> = take (chunk_count (length F) * CHUNK_SIZE) F"
    by (rule concat_windows)
  also have "\<dots> = F"
    using windows_cover [of "length F"] by simp
  finally show ?thesis .
qed

lemma chunk_data_length:
  assumes "c \<in> set (compressFile_chunks F)"
  shows "0 < length (data c) \<and> length (data c) \<le> CHUNK_SIZE"
proof -
  from assms obtain i where i: "i < chunk_count (length F)" and c: "c = window F 0 i"
    by (auto simp: compressFile_chunks_windows)
  from window_start [OF i] CHUNK_SIZE_pos show ?thesis
    by (simp add: c window_def)
qed

lemma chunk_count_scenario:
  assumes "2 * n = 3 * CHUNK_SIZE"
  shows "chunk_count n = 2"
  unfolding chunk_count_def
proof (rule div_nat_eqI)
  from assms show "CHUNK_SIZE * 2 \<le> n + CHUNK_SIZE - 1"
    by (simp add: CHUNK_SIZE_def) 
  from assms show "n + CHUNK_SIZE - 1 < CHUNK_SIZE * Suc 2"
    by (simp add: CHUNK_SIZE_def)
qed

lemma nth_compressFile_chunks:
  assumes "i < length (compressFile_chunks F)"
  shows "compressFile_chunks F ! i = window F 0 i"
  using assms by (simp add: compressFile_chunks_windows)

lemma length_compressFile_chunks:
  "length (compressFile_chunks F) = chunk_count (length F)"
  by (simp add: compressFile_chunks_windows)

lemma chunk_properties:
  assumes "i < length (compressFile_chunks F)"
  shows "data (compressFile_chunks F ! i) = take CHUNK_SIZE (drop (i * CHUNK_SIZE) F)"
    and "index (compressFile_chunks F ! i) = of_nat i"
    and "length F < 2 ^ 64 \<longrightarrow> unat (index (compressFile_chunks F ! i)) = i"
    and "Suc i < length (compressFile_chunks F) \<longrightarrow>
          length (data (compressFile_chunks F ! i)) = CHUNK_SIZE"
    and "Suc i = length (compressFile_chunks F) \<longrightarrow>
          length (data (compressFile_chunks F ! i)) = length F - i * CHUNK_SIZE \<and>
          0 < length F - i * CHUNK_SIZE \<and> length F - i * CHUNK_SIZE \<le> CHUNK_SIZE"
proof -
  let ?n = "length F"
  from assms have i: "i < chunk_count ?n"
    by (simp add: length_compressFile_chunks)
  have w: "compressFile_chunks F ! i = window F 0 i"
    using assms by (rule nth_compressFile_chunks)
  show "data (compressFile_chunks F ! i) = take CHUNK_SIZE (drop (i * CHUNK_SIZE) F)"
    by (simp add: w window_def)
  show "index (compressFile_chunks F ! i) = of_nat i"
    by (simp add: w window_def)
  show "length F < 2 ^ 64 \<longrightarrow> unat (index (compressFile_chunks F ! i)) = i"
  proof
    assume "length F < 2 ^ 64"
    with i chunk_count_le [of ?n] have "i < 2 ^ 64" by simp
    then show "unat (index (compressFile_chunks F ! i)) = i"
      by (simp add: w window_def unat_size_t_of_nat)
  qed
  show "Suc i < length (compressFile_chunks F) \<longrightarrow>
      length (data (compressFile_chunks F ! i)) = CHUNK_SIZE"
  proof
    assume "Suc i < length (compressFile_chunks F)"
    then have "Suc i * CHUNK_SIZE < ?n"
      by (intro window_start) (simp add: length_compressFile_chunks)
    then have "CHUNK_SIZE \<le> ?n - i * CHUNK_SIZE" by simp
    then show "length (data (compressFile_chunks F ! i)) = CHUNK_SIZE"
      by (simp add: w window_def)
  qed
  show "Suc i = length (compressFile_chunks F) \<longrightarrow>
      length (data (compressFile_chunks F ! i)) = length F - i * CHUNK_SIZE \<and>
      0 < length F - i * CHUNK_SIZE \<and> length F - i * CHUNK_SIZE \<le> CHUNK_SIZE"
  proof
    assume "Suc i = length (compressFile_chunks F)"
    then have "chunk_count ?n = Suc i"
      by (simp add: length_compressFile_chunks)
    with windows_cover [of ?n] have le: "?n - i * CHUNK_SIZE \<le> CHUNK_SIZE"
      by simp
    from window_start [OF i] have pos: "0 < ?n - i * CHUNK_SIZE"
      by simp
    from le have "length (data (compressFile_chunks F ! i)) = ?n - i * CHUNK_SIZE"
      by (simp add: w window_def)
    with le pos show "length (data (compressFile_chunks F ! i)) = length F - i * CHUNK_SIZE \<and>
        0 < length F - i * CHUNK_SIZE \<and> length F - i * CHUNK_SIZE \<le> CHUNK_SIZE"
      by simp
  qed
qed

lemma scenario_one_and_a_half:
  assumes "2 * length F = 3 * CHUNK_SIZE"
  shows "length (compressFile_chunks F) = 2 \<and>
    length (data (compressFile_chunks F ! 0)) = CHUNK_SIZE \<and>
    length (data (compressFile_chunks F ! 1)) = CHUNK_SIZE div 2"
proof -
  have len: "length (compressFile_chunks F) = 2"
    using assms by (simp add: length_compressFile_chunks chunk_count_scenario)
  then have 0: "0 < length (compressFile_chunks F)" and 1: "Suc 0 < length (compressFile_chunks F)"
    and l: "Suc 1 = length (compressFile_chunks F)"
    by simp_all
  from chunk_properties(4) [OF 0] 1 have a: "length (data (compressFile_chunks F ! 0)) = CHUNK_SIZE"
    by simp
  from 1 have one: "1 < length (compressFile_chunks F)" by simp
  from chunk_properties(5) [OF one] l
  have "length (data (compressFile_chunks F ! 1)) = length F - 1 * CHUNK_SIZE"
    by simp
  also from assms have "\<dots> = CHUNK_SIZE div 2"
    by simp
  finally show ?thesis using len a by simp
qed

section \<open>The decompression loop at the end of the stream\<close>

lemma le_value_only_zeros: "le_value (replicate k 0) = 0"
  by (induction k) simp_all

lemma le_value_zeros: "le_value (bs @ replicate k 0) = le_value bs"
proof (induction bs)
  case Nil
  show ?case by (simp add: le_value_only_zeros)
next
  case (Cons b bs)
  then show ?case by simp
qed

lemma le_value_less: "le_value bs < 256 ^ length bs"
proof (induction bs)
  case Nil
  show ?case by simp
next
  case (Cons b bs)
  have "unat b < 256"
    using unsigned_less [of b, where 'a = nat] by simp
  moreover from Cons have "le_value bs + 1 \<le> 256 ^ length bs"
    by simp
  then have "256 * (le_value bs + 1) \<le> 256 * 256 ^ length bs"
    by (rule mult_le_mono2)
  ultimately show ?case by simp
qed

lemma size_t_load_short:
  assumes "length bs < 8"
  shows "unat (size_t_load bs) = le_value bs" and "unat (size_t_load bs) < 2 ^ 56"
proof -
  from assms have "length bs \<le> 7" by simp
  then have "(256::nat) ^ length bs \<le> 256 ^ 7"
    by (intro power_increasing) simp_all
  with le_value_less [of bs] have b: "le_value bs < 2 ^ 56"
    by simp
  then have "le_value bs < 2 ^ 64"
    by simp
  then show "unat (size_t_load bs) = le_value bs"
    by (simp add: size_t_load_def size_t_of_bytes_def le_value_zeros unat_size_t_of_nat)
  with b show "unat (size_t_load bs) < 2 ^ 56"
    by simp
qed

lemma size_t_load_Nil: "size_t_load [] = 0"
  by (simp add: size_t_load_def size_t_of_bytes_def le_value_only_zeros)

lemma decode_pairs_zeros: "decode_pairs (replicate n 0) = []"
proof (induction n rule: less_induct)
  case (less n)
  show ?case
  proof (cases n)
    case 0
    then show ?thesis by simp
  next
    case (Suc m)
    show ?thesis
    proof (cases m)
      case 0
      with Suc show ?thesis by simp
    next
      case (Suc k)
      with \<open>n = Suc m\<close> less [of k] show ?thesis by simp
    qed
  qed
qed

lemma decompress_loop_not_good: "\<not> good s \<Longrightarrow> decompress_loop max_alloc s out = Inr out"
  by (subst decompress_loop.simps) (simp add: stream_peek_def)

lemma decompress_loop_exhausted: "unread s = [] \<Longrightarrow> decompress_loop max_alloc s out = Inr out"
  by (subst decompress_loop.simps) (simp add: stream_peek_def)

lemma decompress_loop_short_index:
  assumes "good s" and "unread s \<noteq> []" and "length (unread s) < 8"
  shows "decompress_loop max_alloc s out = Inr out"
proof -
  let ?s1 = "s\<lparr>unread := [], eofbit := True, failbit := True\<rparr>"
  from assms obtain b u where u: "unread s = b # u" by (cases "unread s") auto
  have pk: "stream_peek s = (Some b, s)"
    using assms(1) by (simp add: stream_peek_def u)
  have r1: "stream_read 8 s = (unread s, ?s1)"
    using assms by (simp add: stream_read_def Let_def)
  have ng: "\<not> good ?s1" by (simp add: good_def)
  have r2: "stream_read n ?s1 = ([], ?s1)" for n
    by (simp add: stream_read_def good_def)
  have "decompress_loop max_alloc s out = decompress_loop max_alloc ?s1 (out @ [])"
    by (subst decompress_loop.simps)
      (simp add: pk r1 r2 size_t_load_Nil vector_max_size_def RLEDecompress_eq)
  also have "\<dots> = Inr out"
    by (simp add: decompress_loop_not_good [OF ng])
  finally show ?thesis .
qed

lemma decompress_loop_short_size:
  assumes "good s" and "8 \<le> length (unread s)" and "length (unread s) < 16"
    and "unat (size_t_load (drop 8 (unread s))) \<le> max_alloc"
  shows "decompress_loop max_alloc s out = Inr out"
proof -
  let ?sb = "drop 8 (unread s)"
  let ?s1 = "s\<lparr>unread := ?sb, eofbit := False, failbit := False\<rparr>"
  let ?s2 = "s\<lparr>unread := [], eofbit := True, failbit := True\<rparr>"
  let ?size = "unat (size_t_load ?sb)"
  from assms obtain b u where u: "unread s = b # u" by (cases "unread s") auto
  have pk: "stream_peek s = (Some b, s)"
    using assms(1) by (simp add: stream_peek_def u)
  have r1: "stream_read 8 s = (take 8 (unread s), ?s1)"
    using assms by (simp add: stream_read_def Let_def)
  have r2: "stream_read 8 ?s1 = (?sb, ?s2)"
    using assms by (simp add: stream_read_def Let_def good_def)
  have ng: "\<not> good ?s2" by (simp add: good_def)
  have r3: "stream_read n ?s2 = ([], ?s2)" for n
    by (simp add: stream_read_def good_def)
  from assms have "length ?sb < 8" by simp
  then have "?size < 2 ^ 56" by (rule size_t_load_short(2))
  then have fits: "\<not> vector_max_size < ?size"
    by (simp add: vector_max_size_def)
  from assms(4) have alloc: "\<not> max_alloc < ?size" by simp
  have "decompress_loop max_alloc s out = decompress_loop max_alloc ?s2 (out @ [])"
    by (subst decompress_loop.simps)
      (simp add: pk r1 r2 r3 fits alloc RLEDecompress_eq decode_pairs_zeros)
  also have "\<dots> = Inr out"
    by (simp add: decompress_loop_not_good [OF ng])
  finally show ?thesis .
qed

lemma size_t_load_seven_ff:
  "size_t_load [255, 255, 255, 255, 255, 255, 255] = 72057594037927935"
  by (simp add: size_t_load_def size_t_of_bytes_def)

section \<open>Runs of the pipeline with one worker\<close>

lemma frames_simps:
  "frames [] = []"
  "frames (c # cs) = frame_record (index c) (encode_runs (data c)) @ frames cs"
  "frames (cs @ ds) = frames cs @ frames ds"
  by (simp_all add: frames_def)

lemma chunk_source_None: "next_chunk s idx = None \<Longrightarrow> chunk_source s idx = []"
  by (subst chunk_source.simps) simp

lemma chunk_source_Some:
  "next_chunk s idx = Some (c, s', idx') \<Longrightarrow> chunk_source s idx = c # chunk_source s' idx'"
  by (subst chunk_source.simps) simp

lemma main_step_keeps:
  assumes "consistent p"
  shows "consistent (main_step p)" and "expected_output (main_step p) = expected_output p"
proof -
  show "consistent (main_step p)"
    using assms by (auto simp: consistent_def main_step_def split: option.splits)
  show "expected_output (main_step p) = expected_output p"
  proof (cases "reading p")
    case False
    then show ?thesis by (simp add: main_step_def)
  next
    case True
    show ?thesis
    proof (cases "next_chunk (source p) (next_index p)")
      case None
      with True show ?thesis
        by (simp add: main_step_def expected_output_def unread_chunks_def held_def
            chunk_source_None)
    next
      case (Some r)
      then obtain c s' idx' where "next_chunk (source p) (next_index p) = Some (c, s', idx')"
        by (cases r) auto
      with True show ?thesis
        by (simp add: main_step_def expected_output_def unread_chunks_def held_def
            chunk_source_Some)
    qed
  qed
qed

lemma worker_step_keeps:
  assumes "consistent p"
  shows "consistent (worker_step p)" and "expected_output (worker_step p) = expected_output p"
proof -
  show "consistent (worker_step p)"
    using assms
    by (auto simp: consistent_def worker_step_def RLECompress_eq
        split: worker_pc.splits list.splits)
  show "expected_output (worker_step p) = expected_output p"
    by (cases "worker p"; cases "workQueue p")
      (simp_all add: worker_step_def expected_output_def unread_chunks_def held_def
        RLECompress_eq frames_simps)
qed

lemma step_keeps:
  assumes "consistent p"
  shows "consistent (step p t)" and "expected_output (step p t) = expected_output p"
  using assms main_step_keeps worker_step_keeps by (cases t; simp)+

lemma run_keeps:
  "consistent p \<Longrightarrow>
   consistent (run schedule p) \<and> expected_output (run schedule p) = expected_output p"
proof (induction schedule arbitrary: p)
  case Nil
  then show ?case by (simp add: run_def)
next
  case (Cons t schedule)
  from Cons.prems have "consistent (step p t)" and e: "expected_output (step p t) = expected_output p"
    by (rule step_keeps)+
  from Cons.IH [OF this(1)] e show ?case
    by (simp add: run_def)
qed

lemma init_consistent: "consistent (compressFile_init F existing)"
  by (simp add: consistent_def compressFile_init_def)

lemma init_expected:
  "expected_output (compressFile_init F existing) = existing @ frames (compressFile_chunks F)"
  by (simp add: expected_output_def compressFile_init_def unread_chunks_def held_def
      compressFile_chunks_def)

lemma finished_expected:
  assumes "consistent p" and "finished p"
  shows "expected_output p = outfile p"
  using assms
  by (simp add: consistent_def finished_def expected_output_def unread_chunks_def held_def
      frames_simps)

lemma finished_outfile:
  assumes "finished (run schedule (compressFile_init F existing))"
  shows "outfile (run schedule (compressFile_init F existing)) =
    existing @ frames (compressFile_chunks F)"
proof -
  let ?p = "run schedule (compressFile_init F existing)"
  from run_keeps [OF init_consistent, of schedule F existing]
  have c: "consistent ?p" and e: "expected_output ?p = expected_output (compressFile_init F existing)"
    by simp_all
  from finished_expected [OF c assms] e show ?thesis
    by (simp add: init_expected)
qed

lemma progress:
  assumes "consistent p" and "\<not> finished p"
  shows "\<exists>t. work_left (step p t) < work_left p"
proof (cases "reading p")
  case True
  have "work_left (main_step p) < work_left p"
  proof (cases "next_chunk (source p) (next_index p)")
    case None
    with True show ?thesis
      by (simp add: work_left_def main_step_def unread_chunks_def)
  next
    case (Some r)
    then obtain c s' idx' where "next_chunk (source p) (next_index p) = Some (c, s', idx')"
      by (cases r) auto
    with True show ?thesis
      by (simp add: work_left_def main_step_def unread_chunks_def chunk_source_Some)
  qed
  then have "work_left (step p MainThread) < work_left p" by simp
  then show ?thesis ..
next
  case False
  with assms have d: "doneReading p" and w: "worker p \<noteq> Exited" "worker p \<noteq> Faulted"
    by (auto simp: consistent_def finished_def)
  have "work_left (worker_step p) < work_left p"
    using d w False
    by (cases "worker p"; cases "workQueue p")
      (simp_all add: work_left_def worker_step_def unread_chunks_def RLECompress_eq)
  then have "work_left (step p WorkerThread) < work_left p" by simp
  then show ?thesis ..
qed

lemma some_schedule_finishes:
  "consistent p \<Longrightarrow> \<exists>schedule. finished (run schedule p)"
proof (induction p rule: measure_induct_rule [where f = work_left])
  case (less p)
  show ?case
  proof (cases "finished p")
    case True
    then have "finished (run [] p)" by (simp add: run_def)
    then show ?thesis ..
  next
    case False
    with less.prems obtain t where t: "work_left (step p t) < work_left p"
      using progress by blast
    from less.prems have "consistent (step p t)" by (rule step_keeps)
    from less.IH [OF t this] obtain schedule where "finished (run schedule (step p t))" ..
    then have "finished (run (t # schedule) p)" by (simp add: run_def)
    then show ?thesis ..
  qed
qed

text \<open>
  A step either leaves the state as it is (the thread is blocked or has ended) or lowers
  the bound, so no run takes more than \<open>work_left\<close> effective steps; by \<open>progress\<close>
  some thread can take one as long as the run is not finished.
\<close>

lemma step_blocked_or_bounded:
  "step p t = p \<or> work_left (step p t) < work_left p"
proof (cases t)
  case MainThread
  show ?thesis
  proof (cases "reading p")
    case False
    with MainThread show ?thesis by (simp add: main_step_def)
  next
    case True
    have "work_left (main_step p) < work_left p"
    proof (cases "next_chunk (source p) (next_index p)")
      case None
      with True show ?thesis
        by (simp add: work_left_def main_step_def unread_chunks_def)
    next
      case (Some r)
      then obtain c s' idx' where "next_chunk (source p) (next_index p) = Some (c, s', idx')"
        by (cases r) auto
      with True show ?thesis
        by (simp add: work_left_def main_step_def unread_chunks_def chunk_source_Some)
    qed
    with MainThread show ?thesis by simp
  qed
next
  case WorkerThread
  have "worker_step p = p \<or> work_left (worker_step p) < work_left p"
    by (cases "worker p"; cases "workQueue p")
      (simp_all add: work_left_def worker_step_def unread_chunks_def RLECompress_eq)
  with WorkerThread show ?thesis by simp
qed

text \<open>
  A run can be continued to its end from wherever it stands: whatever steps the two
  threads have taken so far, some further steps bring \<^verbatim>\<open>compressFile\<close> to its return.
\<close>

lemma run_append: "run (schedule @ rest) p = run rest (run schedule p)"
  by (simp add: run_def)

lemma every_run_can_finish:
  "\<exists>rest. finished (run (schedule @ rest) (compressFile_init F existing))"
proof -
  have "consistent (run schedule (compressFile_init F existing))"
    using run_keeps [OF init_consistent] by blast
  then obtain rest where "finished (run rest (run schedule (compressFile_init F existing)))"
    using some_schedule_finishes by blast
  then have "finished (run (schedule @ rest) (compressFile_init F existing))"
    by (simp add: run_append)
  then show ?thesis ..
qed

section \<open>Decompressing a sequence of frame records\<close>

lemma take_size_t_bytes: "take 8 (size_t_bytes w @ rest) = size_t_bytes w"
  by (simp add: length_size_t_bytes)

lemma drop_size_t_bytes: "drop 8 (size_t_bytes w @ rest) = rest"
  by (simp add: length_size_t_bytes)

lemma size_t_bytes_not_Nil: "size_t_bytes w @ rest \<noteq> []"
  using length_size_t_bytes [of w] by (cases "size_t_bytes w") simp_all

lemma stream_read_size_t:
  "stream_read 8 \<lparr>unread = size_t_bytes w @ rest, eofbit = False, failbit = False\<rparr> =
    (size_t_bytes w, \<lparr>unread = rest, eofbit = False, failbit = False\<rparr>)"
  by (simp add: stream_read_def good_def Let_def length_size_t_bytes)

lemma stream_read_payload:
  "stream_read (length payload) \<lparr>unread = payload @ rest, eofbit = False, failbit = False\<rparr> =
    (payload, \<lparr>unread = rest, eofbit = False, failbit = False\<rparr>)"
  by (simp add: stream_read_def good_def Let_def)

lemma stream_peek_size_t:
  "\<exists>b. stream_peek \<lparr>unread = size_t_bytes w @ rest, eofbit = False, failbit = False\<rparr> =
    (Some b, \<lparr>unread = size_t_bytes w @ rest, eofbit = False, failbit = False\<rparr>)"
  using size_t_bytes_not_Nil [of w rest]
  by (cases "size_t_bytes w @ rest") (simp_all add: stream_peek_def good_def)

lemma decompress_loop_frame:
  assumes "length payload \<le> max_alloc" and "length payload \<le> vector_max_size"
  shows "decompress_loop max_alloc
      \<lparr>unread = frame_record idx payload @ rest, eofbit = False, failbit = False\<rparr> out =
    decompress_loop max_alloc \<lparr>unread = rest, eofbit = False, failbit = False\<rparr>
      (out @ decode_pairs payload)"
proof -
  let ?len = "of_nat (length payload) :: size_t"
  let ?s = "\<lparr>unread = size_t_bytes idx @ size_t_bytes ?len @ payload @ rest,
      eofbit = False, failbit = False\<rparr>"
  from assms(2) have "length payload < 2 ^ 64"
    by (simp add: vector_max_size_def)
  then have len: "unat ?len = length payload"
    by (rule unat_size_t_of_nat)
  obtain b where pk: "stream_peek ?s = (Some b, ?s)"
    using stream_peek_size_t by blast
  have "decompress_loop max_alloc ?s out =
      decompress_loop max_alloc \<lparr>unread = rest, eofbit = False, failbit = False\<rparr>
        (out @ decode_pairs payload)"
    using assms
    by (subst decompress_loop.simps)
      (simp add: pk stream_read_size_t size_t_load_full len stream_read_payload
        RLEDecompress_eq)
  then show ?thesis
    by (simp add: frame_record_def)
qed

lemma decompress_loop_frames:
  assumes "2 * CHUNK_SIZE \<le> max_alloc"
    and "\<forall>c \<in> set cs. length (data c) \<le> CHUNK_SIZE"
  shows "decompress_loop max_alloc \<lparr>unread = frames cs, eofbit = False, failbit = False\<rparr> out =
    Inr (out @ concat (map data cs))"
  using assms(2)
proof (induction cs arbitrary: out)
  case Nil
  show ?case by (simp add: frames_simps decompress_loop_exhausted)
next
  case (Cons c cs)
  let ?payload = "encode_runs (data c)"
  from Cons.prems have "length (data c) \<le> CHUNK_SIZE" by simp
  with length_encode_runs [of "data c"] have l: "length ?payload \<le> 2 * CHUNK_SIZE"
    by simp
  with assms(1) have a: "length ?payload \<le> max_alloc" by simp
  from l have v: "length ?payload \<le> vector_max_size"
    by (simp add: CHUNK_SIZE_def vector_max_size_def)
  from Cons.prems have rest: "\<forall>c \<in> set cs. length (data c) \<le> CHUNK_SIZE" by simp
  have "decompress_loop max_alloc
      \<lparr>unread = frames (c # cs), eofbit = False, failbit = False\<rparr> out =
    decompress_loop max_alloc \<lparr>unread = frames cs, eofbit = False, failbit = False\<rparr>
      (out @ decode_pairs ?payload)"
    unfolding frames_simps by (rule decompress_loop_frame [OF a v])
  also have "\<dots> = Inr ((out @ decode_pairs ?payload) @ concat (map data cs))"
    by (rule Cons.IH [OF rest])
  finally show ?case
    by (simp add: decode_encode_runs)
qed

section \<open>The claims\<close>

text \<open>
  C1. For every byte sequence \<open>S\<close>, \<^verbatim>\<open>RLECompress\<close> returns, and \<^verbatim>\<open>RLEDecompress\<close> of
  what it returns is \<open>S\<close>: encoding and then decoding is the identity, on the empty
  input and on inputs with runs longer than 255 as on every other.
\<close>

theorem RLE_roundtrip:
  "\<exists>compressed. RLECompress S = Some compressed \<and> RLEDecompress compressed = Some S"
  by (simp add: RLECompress_eq RLEDecompress_eq decode_encode_runs)

theorem RLE_roundtrip_witness:
  "RLECompress [7, 7, 9] = Some [7, 2, 9, 1] \<and> RLEDecompress [7, 2, 9, 1] = Some [7, 7, 9]"
proof -
  have c: "RLECompress [7, 7, 9] = Some [7, 2, 9, 1]" by code_simp
  from RLE_roundtrip [of "[7, 7, 9]"] show ?thesis unfolding c by simp
qed

text \<open>
  C7. On an input of odd length \<^verbatim>\<open>RLEDecompress\<close> returns normally, and what it
  returns is what it returns on the input without its last byte: the trailing byte is
  dropped.
\<close>

theorem RLEDecompress_odd_drops_last:
  assumes "odd (length input)"
  shows "RLEDecompress input = RLEDecompress (butlast input) \<and>
    (\<exists>out. RLEDecompress input = Some out)"
  using assms by (simp add: RLEDecompress_eq decode_pairs_butlast)

theorem RLEDecompress_odd_drops_last_witness:
  "RLEDecompress [65, 3, 66] = RLEDecompress [65, 3] \<and>
   RLEDecompress [65, 3, 66] = Some [65, 65, 65]"
proof -
  have o: "odd (length [65, 3, 66 :: byte])" by simp
  have d: "RLEDecompress [65, 3] = Some [65, 65, 65]" by code_simp
  from RLEDecompress_odd_drops_last [OF o] d show ?thesis by simp
qed

text \<open>
  C8. \<^verbatim>\<open>RLEDecompress\<close> returns on every byte sequence, well formed or not, and none of
  its reads is out of range: a read out of range is the result \<open>None\<close> of the model,
  and the loop does not produce it from any position and with any output so far.
\<close>

theorem RLEDecompress_in_bounds:
  "(\<exists>out. RLEDecompress input = Some out) \<and>
   (\<exists>out'. RLEDecompress_from input i out = Some out')"
  by (simp add: RLEDecompress_eq RLEDecompress_from_eq)

text \<open>
  C9. On every input \<^verbatim>\<open>RLECompress\<close> returns an output of even length, at most twice
  as long as the input, in which every second byte (the count of a pair), read
  unsigned, is between 1 and 255: no pair has the count 0.
\<close>

theorem RLECompress_output_pairs:
  "\<exists>out. RLECompress input = Some out \<and> even (length out) \<and>
     length out \<le> 2 * length input \<and>
     (\<forall>k. 2 * k + 1 < length out \<longrightarrow>
        1 \<le> unat (out ! (2 * k + 1)) \<and> unat (out ! (2 * k + 1)) \<le> 255)"
proof -
  have "unat b \<le> 255" for b :: byte
    using unsigned_less [of b, where 'a = nat] by simp
  then show ?thesis
    using length_encode_runs [of input] by (simp add: RLECompress_eq encode_runs_counts)
qed

theorem RLECompress_output_pairs_witness:
  "RLECompress [7, 7, 9] = Some [7, 2, 9, 1] \<and> even (length [7, 2, 9, 1 :: byte]) \<and>
   length [7, 2, 9, 1 :: byte] \<le> 2 * length [7, 7, 9 :: byte] \<and>
   unat ([7, 2, 9, 1 :: byte] ! 1) = 2 \<and> unat ([7, 2, 9, 1 :: byte] ! 3) = 1"
proof -
  have c: "RLECompress [7, 7, 9] = Some [7, 2, 9, 1]" by code_simp
  from RLECompress_output_pairs [of "[7, 7, 9]"] show ?thesis unfolding c by simp
qed

text \<open>
  C3. A maximal run of \<open>n\<close> copies of a byte \<open>x\<close> (the byte before it, if any, and the
  byte after it, if any, differ from \<open>x\<close>) is encoded as \<open>run_pairs x n\<close>: one pair
  \<open>(x, 255)\<close> for each full slice of 255 and one pair for what is left, between the
  encodings of what precedes and what follows the run. A run of 300 copies of \<open>X\<close> alone
  is encoded as \<open>(X, 255)\<close>, \<open>(X, 45)\<close>.
\<close>

theorem RLECompress_splits_runs:
  assumes "0 < n" and "pre = [] \<or> last pre \<noteq> x" and "suf = [] \<or> hd suf \<noteq> x"
  shows "(\<exists>a b. RLECompress pre = Some a \<and> RLECompress suf = Some b \<and>
      RLECompress (pre @ replicate n x @ suf) = Some (a @ run_pairs x n @ b)) \<and>
    RLECompress (replicate 300 X) = Some [X, 255, X, 45]"
proof -
  from assms(1) have "hd (replicate n x @ suf) = x"
    by (cases n) simp_all
  with assms(2) have "pre = [] \<or> replicate n x @ suf = [] \<or> last pre \<noteq> hd (replicate n x @ suf)"
    by auto
  then have "encode_runs (pre @ replicate n x @ suf) =
      encode_runs pre @ encode_runs (replicate n x @ suf)"
    by (rule encode_runs_append)
  also have "encode_runs (replicate n x @ suf) = run_pairs x n @ encode_runs suf"
    using assms(3) by (rule encode_runs_replicate)
  finally have general: "encode_runs (pre @ replicate n x @ suf) =
      encode_runs pre @ run_pairs x n @ encode_runs suf" .
  have "encode_runs (replicate 300 X @ []) = run_pairs X 300 @ encode_runs []"
    by (rule encode_runs_replicate) simp
  then have "encode_runs (replicate 300 X) = [X, 255, X, 45]"
    by (simp add: run_pairs_300)
  with general show ?thesis
    by (simp add: RLECompress_eq)
qed

theorem RLECompress_splits_runs_witness:
  "RLECompress [1] = Some [1, 1] \<and> RLECompress [5] = Some [5, 1] \<and>
   RLECompress ([1] @ replicate 3 2 @ [5]) = Some ([1, 1] @ [2, 3] @ [5, 1])"
proof -
  have a: "RLECompress [1] = Some [1, 1]" by code_simp
  have b: "RLECompress [5] = Some [5, 1]" by code_simp
  have r: "run_pairs 2 3 = [2, 3]" by (subst run_pairs.simps) simp
  have h1: "(0::nat) < 3" by simp
  have h2: "[1] = [] \<or> last [1] \<noteq> (2::byte)" by simp
  have h3: "[5] = [] \<or> hd [5] \<noteq> (2::byte)" by simp
  from RLECompress_splits_runs [OF h1 h2 h3, THEN conjunct1] show ?thesis
    unfolding a b r by simp
qed

text \<open>
  C5. The step in which the worker handles the chunk it holds appends one frame record to
  the output: 8 bytes that are the object representation of the chunk's index, 8 bytes
  that are the object representation of a length, and then the payload, which is
  \<^verbatim>\<open>RLECompress\<close> of the chunk's data and has exactly the length the second field
  states. The data of a chunk is a \<^verbatim>\<open>std::vector<char>\<close>, whose size is below
  \<open>2\<^sup>6\<^sup>3\<close>.
\<close>

theorem worker_writes_frame_record:
  assumes "worker p = Holding c" and "length (data c) < 2 ^ 63"
  shows "\<exists>payload frame. RLECompress (data c) = Some payload \<and>
    outfile (worker_step p) = outfile p @ frame \<and>
    length frame = 8 + 8 + length payload \<and>
    size_t_of_bytes (take 8 frame) = index c \<and>
    unat (size_t_of_bytes (take 8 (drop 8 frame))) = length payload \<and>
    drop 16 frame = payload"
proof -
  let ?payload = "encode_runs (data c)"
  let ?frame = "frame_record (index c) ?payload"
  have c: "RLECompress (data c) = Some ?payload"
    by (rule RLECompress_eq)
  have "length ?payload \<le> 2 * length (data c)"
    using length_encode_runs by blast
  with assms(2) have small: "length ?payload < 2 ^ 64"
    by simp
  have 1: "outfile (worker_step p) = outfile p @ ?frame"
    using assms(1) by (simp add: worker_step_def c)
  have 2: "length ?frame = 8 + 8 + length ?payload"
    by (simp add: frame_record_def length_size_t_bytes)
  have 3: "size_t_of_bytes (take 8 ?frame) = index c"
    by (simp add: frame_record_def length_size_t_bytes size_t_bytes_inverse)
  have 4: "unat (size_t_of_bytes (take 8 (drop 8 ?frame))) = length ?payload"
    by (simp add: frame_record_def length_size_t_bytes size_t_bytes_inverse
        unat_size_t_of_nat [OF small])
  have 5: "drop 16 ?frame = ?payload"
    by (simp add: frame_record_def length_size_t_bytes)
  from c 1 2 3 4 5 show ?thesis by blast
qed

theorem worker_writes_frame_record_witness:
  "\<exists>frame. outfile (worker_step
      \<lparr>source = open_stream [], next_index = 1, reading = False, workQueue = [],
       doneReading = True, worker = Holding \<lparr>index = 3, data = [7, 7, 9]\<rparr>,
       outfile = [1]\<rparr>) = [1] @ frame \<and>
    length frame = 20 \<and> size_t_of_bytes (take 8 frame) = 3 \<and>
    unat (size_t_of_bytes (take 8 (drop 8 frame))) = 4 \<and> drop 16 frame = [7, 2, 9, 1]"
proof -
  let ?c = "\<lparr>index = 3, data = [7, 7, 9]\<rparr> :: Chunk"
  let ?p = "\<lparr>source = open_stream [], next_index = 1, reading = False, workQueue = [],
       doneReading = True, worker = Holding ?c, outfile = [1]\<rparr>"
  have h1: "worker ?p = Holding ?c" by simp
  have h2: "length (data ?c) < 2 ^ 63" by simp
  have c: "RLECompress [7, 7, 9] = Some [7, 2, 9, 1]" by code_simp
  from worker_writes_frame_record [OF h1 h2] c show ?thesis
    by auto
qed

text \<open>
  C4. The reading loop of \<^verbatim>\<open>compressFile\<close> cuts the input into windows of
  \<open>CHUNK_SIZE\<close> = 1024 * 1024 bytes: chunk \<open>i\<close> holds the bytes from position
  \<open>i * CHUNK_SIZE\<close> on, exactly \<open>CHUNK_SIZE\<close> of them unless it is the last chunk,
  which holds the bytes that remain (at least one). Together the chunks are the file.
  The index of chunk \<open>i\<close> is \<open>i\<close>, the number of chunks produced before it (as a
  \<^verbatim>\<open>size_t\<close>; as a number for every file shorter than \<open>2\<^sup>6\<^sup>4\<close> bytes), so the indices
  start at 0 and increase by one. The loop ends when no byte is left to read. An input
  of one and a half times \<open>CHUNK_SIZE\<close> gives two chunks, a full one and one of half
  the size; the number of workers is not an input of the loop.
\<close>

theorem chunk_source_fixed_windows:
  "CHUNK_SIZE = 1024 * 1024 \<and>
   length (compressFile_chunks F) = (length F + CHUNK_SIZE - 1) div CHUNK_SIZE \<and>
   concat (map data (compressFile_chunks F)) = F \<and>
   (\<forall>i < length (compressFile_chunks F).
      data (compressFile_chunks F ! i) = take CHUNK_SIZE (drop (i * CHUNK_SIZE) F) \<and>
      index (compressFile_chunks F ! i) = of_nat i \<and>
      (length F < 2 ^ 64 \<longrightarrow> unat (index (compressFile_chunks F ! i)) = i) \<and>
      (Suc i < length (compressFile_chunks F) \<longrightarrow>
         length (data (compressFile_chunks F ! i)) = CHUNK_SIZE) \<and>
      (Suc i = length (compressFile_chunks F) \<longrightarrow>
         length (data (compressFile_chunks F ! i)) = length F - i * CHUNK_SIZE \<and>
         0 < length F - i * CHUNK_SIZE \<and> length F - i * CHUNK_SIZE \<le> CHUNK_SIZE)) \<and>
   (\<forall>s idx. unread s = [] \<longrightarrow> next_chunk s idx = None) \<and>
   (2 * length F = 3 * CHUNK_SIZE \<longrightarrow>
      length (compressFile_chunks F) = 2 \<and>
      length (data (compressFile_chunks F ! 0)) = CHUNK_SIZE \<and>
      length (data (compressFile_chunks F ! 1)) = CHUNK_SIZE div 2)"
proof (intro conjI allI impI)
  show "CHUNK_SIZE = 1024 * 1024" by (rule CHUNK_SIZE_def)
  show "length (compressFile_chunks F) = (length F + CHUNK_SIZE - 1) div CHUNK_SIZE"
    by (simp add: length_compressFile_chunks chunk_count_def)
  show "concat (map data (compressFile_chunks F)) = F"
    by (rule concat_compressFile_chunks)
  show "next_chunk s idx = None" if "unread s = []" for s idx
    using that by (rule next_chunk_empty)
next
  fix i assume i: "i < length (compressFile_chunks F)"
  show "data (compressFile_chunks F ! i) = take CHUNK_SIZE (drop (i * CHUNK_SIZE) F)"
    by (rule chunk_properties(1) [OF i])
  show "index (compressFile_chunks F ! i) = of_nat i"
    by (rule chunk_properties(2) [OF i])
  show "unat (index (compressFile_chunks F ! i)) = i" if "length F < 2 ^ 64"
    using chunk_properties(3) [OF i] that by simp
  show "length (data (compressFile_chunks F ! i)) = CHUNK_SIZE"
    if "Suc i < length (compressFile_chunks F)"
    using chunk_properties(4) [OF i] that by simp
  show "length (data (compressFile_chunks F ! i)) = length F - i * CHUNK_SIZE"
    "0 < length F - i * CHUNK_SIZE" "length F - i * CHUNK_SIZE \<le> CHUNK_SIZE"
    if "Suc i = length (compressFile_chunks F)"
    using chunk_properties(5) [OF i] that by simp_all
next
  assume s: "2 * length F = 3 * CHUNK_SIZE"
  show "length (compressFile_chunks F) = 2"
    "length (data (compressFile_chunks F ! 0)) = CHUNK_SIZE"
    "length (data (compressFile_chunks F ! 1)) = CHUNK_SIZE div 2"
    using scenario_one_and_a_half [OF s] by simp_all
qed

theorem chunk_source_fixed_windows_witness:
  "length (compressFile_chunks [1, 2, 3]) = 1 \<and>
   concat (map data (compressFile_chunks [1, 2, 3])) = [1, 2, 3] \<and>
   index (compressFile_chunks [1, 2, 3] ! 0) = 0 \<and>
   unat (index (compressFile_chunks [1, 2, 3] ! 0)) = 0"
proof -
  have "compressFile_chunks [1, 2, 3] =
      \<lparr>index = 0, data = [1, 2, 3]\<rparr> #
      chunk_source \<lparr>unread = [], eofbit = True, failbit = True\<rparr> 1"
    unfolding compressFile_chunks_def open_stream_def
    by (subst chunk_source.simps)
      (simp add: next_chunk_def stream_read_def good_def CHUNK_SIZE_def)
  also have "chunk_source \<lparr>unread = [], eofbit = True, failbit = True\<rparr> 1 = []"
    by (subst chunk_source.simps) (simp add: next_chunk_def)
  finally have e: "compressFile_chunks [1, 2, 3] = [\<lparr>index = 0, data = [1, 2, 3]\<rparr>]" .
  have h: "0 < length (compressFile_chunks [1, 2, 3])"
    by (simp add: e)
  have small: "length [1, 2, 3 :: byte] < 2 ^ 64"
    by simp
  note t = chunk_source_fixed_windows [of "[1, 2, 3]"]
  note c = t [THEN conjunct2, THEN conjunct2, THEN conjunct1]
  note at0 = t [THEN conjunct2, THEN conjunct2, THEN conjunct2, THEN conjunct1, rule_format, OF h]
  note ix = at0 [THEN conjunct2, THEN conjunct1]
  note un = at0 [THEN conjunct2, THEN conjunct2, THEN conjunct1, rule_format, OF small]
  have l: "length (compressFile_chunks [1, 2, 3]) = 1"
    by (simp add: e)
  from l c ix un show ?thesis by simp
qed

text \<open>
  C6. When fewer than 16 bytes are left at the head of the decompression loop, the loop
  returns the output written so far and nothing else, provided that the buffer for the
  payload can be allocated. With no byte left the loop ends at once. With 1 to 15 bytes
  left the code does not notice the short read: it runs the body once more on a header
  that is zero where nothing was read, allocates a zero buffer of the length the (at
  most 7) length bytes give, decodes it to nothing and ends at the next test. The
  length of that buffer is the one thing that can fail.
\<close>

theorem decompress_stops_at_short_header:
  assumes "length (unread s) < 16"
    and "unat (size_t_load (take 8 (drop 8 (unread s)))) \<le> max_alloc"
  shows "decompress_loop max_alloc s out = Inr out"
proof (cases "good s")
  case False
  then show ?thesis by (rule decompress_loop_not_good)
next
  case True
  show ?thesis
  proof (cases "unread s = []")
    case True
    then show ?thesis by (rule decompress_loop_exhausted)
  next
    case False
    show ?thesis
    proof (cases "length (unread s) < 8")
      case True
      with \<open>good s\<close> False show ?thesis by (intro decompress_loop_short_index)
    next
      case False
      with assms have "take 8 (drop 8 (unread s)) = drop 8 (unread s)" by simp
      with assms False \<open>good s\<close> show ?thesis
        by (intro decompress_loop_short_size) simp_all
    qed
  qed
qed

theorem decompress_stops_at_short_header_witness:
  "decompress_loop 100 (open_stream [1, 0, 0, 0, 0, 0, 0, 0, 4, 0]) [65] = Inr [65]"
proof -
  let ?s = "open_stream [1, 0, 0, 0, 0, 0, 0, 0, 4, 0]"
  have h1: "length (unread ?s) < 16" by (simp add: open_stream_def)
  have "size_t_load [4, 0] = 4" by code_simp
  then have h2: "unat (size_t_load (take 8 (drop 8 (unread ?s)))) \<le> 100"
    by (simp add: open_stream_def)
  from decompress_stops_at_short_header [OF h1 h2] show ?thesis .
qed

text \<open>
  C6 as it is stated, without the proviso, fails: 8 bytes of index followed by 7
  bytes \<open>0xff\<close> make the program ask for a buffer of \<open>2\<^sup>5\<^sup>6 - 1\<close> bytes, and an
  allocator that supplies at most \<open>2\<^sup>4\<^sup>8\<close> bytes throws \<^verbatim>\<open>std::bad_alloc\<close>.
\<close>

theorem decompress_short_header_bad_alloc:
  "length (unread (open_stream [0, 0, 0, 0, 0, 0, 0, 0, 255, 255, 255, 255, 255, 255, 255])) < 16 \<and>
   decompress_loop (2 ^ 48)
     (open_stream [0, 0, 0, 0, 0, 0, 0, 0, 255, 255, 255, 255, 255, 255, 255]) [] =
   Inl BadAlloc"
proof -
  have "decompress_loop (2 ^ 48)
     (open_stream [0, 0, 0, 0, 0, 0, 0, 0, 255, 255, 255, 255, 255, 255, 255]) [] =
   Inl BadAlloc"
    by (subst decompress_loop.simps)
      (simp add: open_stream_def stream_peek_def stream_read_def good_def Let_def
        size_t_load_seven_ff vector_max_size_def)
  then show ?thesis by (simp add: open_stream_def)
qed

text \<open>
  C2. With one worker and a fresh output file, compression followed by decompression
  gives back the input file. Some schedule brings \<^verbatim>\<open>compressFile\<close> to its end, and
  whatever steps the main thread and the worker have taken, in whatever order, the run
  can be continued to its end: no run gets stuck. At the end of every schedule that
  reaches it, the output file holds the frame records of the chunks in the order they
  were pushed, and \<^verbatim>\<open>decompressFile\<close> on that file returns normally with the bytes of
  the input. The decompressor must be able to allocate the buffer for one
  encoded chunk, which is at most twice \<open>CHUNK_SIZE\<close> bytes.
\<close>

theorem single_worker_roundtrip:
  assumes "2 * CHUNK_SIZE \<le> max_alloc"
  shows "(\<exists>schedule. finished (run schedule (compressFile_init F []))) \<and>
    (\<forall>schedule. \<exists>rest. finished (run (schedule @ rest) (compressFile_init F []))) \<and>
    (\<forall>schedule. finished (run schedule (compressFile_init F [])) \<longrightarrow>
       decompressFile max_alloc (outfile (run schedule (compressFile_init F []))) = Inr F)"
proof (intro conjI)
  show "\<exists>schedule. finished (run schedule (compressFile_init F []))"
    using init_consistent by (rule some_schedule_finishes)
next
  show "\<forall>schedule. \<exists>rest. finished (run (schedule @ rest) (compressFile_init F []))"
    using every_run_can_finish by blast
next
  have sizes: "\<forall>c \<in> set (compressFile_chunks F). length (data c) \<le> CHUNK_SIZE"
    using chunk_data_length by blast
  have "decompressFile max_alloc (frames (compressFile_chunks F)) =
      Inr ([] @ concat (map data (compressFile_chunks F)))"
    unfolding decompressFile_def open_stream_def
    by (rule decompress_loop_frames [OF assms sizes])
  then have d: "decompressFile max_alloc (frames (compressFile_chunks F)) = Inr F"
    by (simp add: concat_compressFile_chunks)
  show "\<forall>schedule. finished (run schedule (compressFile_init F [])) \<longrightarrow>
      decompressFile max_alloc (outfile (run schedule (compressFile_init F []))) = Inr F"
  proof (intro allI impI)
    fix schedule
    assume "finished (run schedule (compressFile_init F []))"
    then have "outfile (run schedule (compressFile_init F [])) = [] @ frames (compressFile_chunks F)"
      by (rule finished_outfile)
    with d show "decompressFile max_alloc (outfile (run schedule (compressFile_init F []))) = Inr F"
      by simp
  qed
qed


theorem single_worker_roundtrip_witness:
  "finished (run [MainThread, WorkerThread, MainThread, WorkerThread, WorkerThread]
      (compressFile_init [1, 1, 2] [])) \<and>
   decompressFile (2 * CHUNK_SIZE)
     (outfile (run [MainThread, WorkerThread, MainThread, WorkerThread, WorkerThread]
        (compressFile_init [1, 1, 2] []))) = Inr [1, 1, 2]"
proof -
  let ?schedule = "[MainThread, WorkerThread, MainThread, WorkerThread, WorkerThread]"
  have h: "2 * CHUNK_SIZE \<le> 2 * CHUNK_SIZE" by simp
  have f: "finished (run ?schedule (compressFile_init [1, 1, 2] []))"
    by (simp add: run_def finished_def compressFile_init_def open_stream_def main_step_def
        worker_step_def next_chunk_def stream_read_def good_def CHUNK_SIZE_def Let_def
        RLECompress_eq)
  from single_worker_roundtrip [OF h, of "[1, 1, 2]"] f show ?thesis
    by blast
qed

end
